theory Spec2Isabelle
  imports Complex_Main "HOL-Library.Log_Nat" "HOL-Library.AList" "HOL-Library.Word"
begin

section \<open>Binary64 floating point\<close>

text \<open>
  The pricing code of \<^verbatim>\<open>app.py\<close> computes in IEEE 754 binary64: \<^verbatim>\<open>tax_rate\<close> is a Python
  \<^verbatim>\<open>float\<close>, the columns of the data frame are numpy \<^verbatim>\<open>float64\<close>, and each operation is
  rounded to nearest, ties to even. A finite value is modelled by the rational number it
  denotes; \<open>-0.0\<close> is identified with \<open>0.0\<close> (the program only adds, multiplies, divides by
  \<open>100.0\<close> and compares, where the two zeros behave alike). Infinities and NaN are values
  of their own.
\<close>

datatype float64 = Fin rat | PInf | NInf | NaN

text \<open>
  \<open>ilog2 x\<close> is the binary exponent of a positive rational: \<open>2 ^ ilog2 x \<le> x < 2 ^ (ilog2 x + 1)\<close>
  (\<open>bitlen n\<close> is the number of binary digits of \<open>n\<close>).
\<close>

definition ilog2 :: "rat \<Rightarrow> int" where
  "ilog2 x = (if 1 \<le> x then bitlen \<lfloor>x\<rfloor> - 1 else - bitlen (\<lceil>1 / x\<rceil> - 1))"

definition round_half_even :: "rat \<Rightarrow> int" where
  "round_half_even x = (let f = \<lfloor>x\<rfloor>; d = x - of_int f in
     if d < 1 / 2 then f else if 1 / 2 < d then f + 1 else if even f then f else f + 1)"

text \<open>
  The exponent of the binade of \<open>a\<close> (at least \<open>-1022\<close>: below it the values are subnormal),
  the spacing of binary64 values there (53 significant bits), and the nearest value.
\<close>

definition expo :: "rat \<Rightarrow> int" where
  "expo a = max (ilog2 a) (- 1022)"

definition ulp :: "rat \<Rightarrow> rat" where
  "ulp a = 2 powi (expo a - 52)"

definition nearest :: "rat \<Rightarrow> rat" where
  "nearest a = of_int (round_half_even (a / ulp a)) * ulp a"

text \<open>
  Rounding a rational to binary64: the nearest value, and an infinity when that value needs
  an exponent above 1023.
\<close>

definition round64 :: "rat \<Rightarrow> float64" where
  "round64 x = (if x = 0 then Fin 0 else
     let r = nearest \<bar>x\<bar> in
     if 1023 < ilog2 r then (if 0 < x then PInf else NInf)
     else Fin (if 0 < x then r else - r))"

definition is_double :: "rat \<Rightarrow> bool" where
  "is_double x = (round64 x = Fin x)"

fun isnan :: "float64 \<Rightarrow> bool" where
  "isnan NaN = True"
| "isnan _ = False"

fun float_add :: "float64 \<Rightarrow> float64 \<Rightarrow> float64" where
  "float_add (Fin a) (Fin b) = round64 (a + b)"
| "float_add NaN _ = NaN"
| "float_add _ NaN = NaN"
| "float_add PInf NInf = NaN"
| "float_add NInf PInf = NaN"
| "float_add PInf _ = PInf"
| "float_add _ PInf = PInf"
| "float_add NInf _ = NInf"
| "float_add _ NInf = NInf"

fun float_mul :: "float64 \<Rightarrow> float64 \<Rightarrow> float64" where
  "float_mul (Fin a) (Fin b) = round64 (a * b)"
| "float_mul NaN _ = NaN"
| "float_mul _ NaN = NaN"
| "float_mul (Fin a) PInf = (if a = 0 then NaN else if 0 < a then PInf else NInf)"
| "float_mul (Fin a) NInf = (if a = 0 then NaN else if 0 < a then NInf else PInf)"
| "float_mul PInf (Fin b) = (if b = 0 then NaN else if 0 < b then PInf else NInf)"
| "float_mul NInf (Fin b) = (if b = 0 then NaN else if 0 < b then NInf else PInf)"
| "float_mul PInf PInf = PInf"
| "float_mul NInf NInf = PInf"
| "float_mul PInf NInf = NInf"
| "float_mul NInf PInf = NInf"

text \<open>Python's \<^verbatim>\<open><\<close> and \<^verbatim>\<open><=\<close> on floats: every comparison with NaN is false.\<close>

fun float_lt :: "float64 \<Rightarrow> float64 \<Rightarrow> bool" where
  "float_lt (Fin a) (Fin b) = (a < b)"
| "float_lt NaN _ = False"
| "float_lt _ NaN = False"
| "float_lt _ NInf = False"
| "float_lt NInf _ = True"
| "float_lt PInf _ = False"
| "float_lt (Fin a) PInf = True"

fun float_le :: "float64 \<Rightarrow> float64 \<Rightarrow> bool" where
  "float_le (Fin a) (Fin b) = (a \<le> b)"
| "float_le NaN _ = False"
| "float_le _ NaN = False"
| "float_le NInf _ = True"
| "float_le _ PInf = True"
| "float_le _ NInf = False"
| "float_le PInf _ = False"

text \<open>Values the statements below speak about: non-negative ones (zero, positive, \<open>+inf\<close>),
  and binary64 values proper (a finite one is a rational that rounding leaves alone).\<close>

fun nonneg :: "float64 \<Rightarrow> bool" where
  "nonneg (Fin a) = (0 \<le> a)"
| "nonneg PInf = True"
| "nonneg _ = False"

fun representable :: "float64 \<Rightarrow> bool" where
  "representable (Fin a) = is_double a"
| "representable _ = True"

section \<open>Python errors\<close>

datatype py_error = KeyError string | ZeroDivisionError | LibraryError string

definition py_bind :: "py_error + 'a \<Rightarrow> ('a \<Rightarrow> py_error + 'b) \<Rightarrow> py_error + 'b" where
  "py_bind m f = (case m of Inl e \<Rightarrow> Inl e | Inr x \<Rightarrow> f x)"

text \<open>
  Python's float division raises \<^verbatim>\<open>ZeroDivisionError\<close> for a zero divisor, whatever the
  dividend.
\<close>

fun float_truediv :: "float64 \<Rightarrow> float64 \<Rightarrow> py_error + float64" where
  "float_truediv x (Fin b) =
     (if b = 0 then Inl ZeroDivisionError
      else Inr (case x of
          Fin a \<Rightarrow> round64 (a / b)
        | PInf \<Rightarrow> (if 0 < b then PInf else NInf)
        | NInf \<Rightarrow> (if 0 < b then NInf else PInf)
        | NaN \<Rightarrow> NaN))"
| "float_truediv (Fin a) PInf = Inr (Fin 0)"
| "float_truediv (Fin a) NInf = Inr (Fin 0)"
| "float_truediv _ _ = Inr NaN"

section \<open>The shopping list as a data frame\<close>

text \<open>
  \<^verbatim>\<open>data["shopping_list"]\<close> is a list of dictionaries, one per line item; the keys the
  engine reads are \<^verbatim>\<open>Qty\<close>, \<^verbatim>\<open>Price_HD\<close> and \<^verbatim>\<open>Price_Lowes\<close>. A value is a JSON number (Python's
  \<^verbatim>\<open>json.loads\<close> also reads \<^verbatim>\<open>NaN\<close> and \<^verbatim>\<open>Infinity\<close>) or \<^verbatim>\<open>null\<close>; a number is taken at its
  binary64 value (pandas keeps a column of integer literals only as \<^verbatim>\<open>int64\<close>: its products
  and sums are those of binary64 as long as they stay below \<open>2 ^ 53\<close>, the range the model
  covers for such columns). Strings and other JSON values in these fields are outside the
  model, and so are the fields the engine never reads (\<^verbatim>\<open>Item\<close>, \<^verbatim>\<open>Reasoning\<close>).
  A dictionary is an association list with distinct keys.
\<close>

datatype json_value = JNumber float64 | JNull

type_synonym py_dict = "(string \<times> json_value) list"

type_synonym Series = "float64 list"

text \<open>
  A data frame maps each column name to its series of cells. \<^verbatim>\<open>pd.DataFrame(records)\<close> has
  one column per key that occurs in some record, in order of first occurrence, and one row
  per record; a record without the key, or with \<^verbatim>\<open>null\<close> there, gets NaN in that cell. An
  empty list of records gives a frame with no column at all.
\<close>

type_synonym DataFrame = "(string \<times> Series) list"

definition cell :: "py_dict \<Rightarrow> string \<Rightarrow> float64" where
  "cell row c = (case map_of row c of Some (JNumber x) \<Rightarrow> x | Some JNull \<Rightarrow> NaN | None \<Rightarrow> NaN)"

definition column_names :: "py_dict list \<Rightarrow> string list" where
  "column_names records = rev (remdups (rev (concat (map (map fst) records))))"

definition pd_DataFrame :: "py_dict list \<Rightarrow> DataFrame" where
  "pd_DataFrame records = map (\<lambda>c. (c, map (\<lambda>row. cell row c) records)) (column_names records)"

text \<open>\<^verbatim>\<open>df[c]\<close> raises \<^verbatim>\<open>KeyError\<close> for a column the frame does not have; \<^verbatim>\<open>df[c] = s\<close>
  replaces the column or appends it.\<close>

definition getitem :: "DataFrame \<Rightarrow> string \<Rightarrow> py_error + Series" where
  "getitem df c = (case map_of df c of None \<Rightarrow> Inl (KeyError c) | Some s \<Rightarrow> Inr s)"

definition setitem :: "DataFrame \<Rightarrow> string \<Rightarrow> Series \<Rightarrow> DataFrame" where
  "setitem df c s = AList.update c s df"

text \<open>
  The product of two columns of one frame is taken row by row. \<^verbatim>\<open>Series.sum()\<close> skips NaN
  cells (\<^verbatim>\<open>skipna=True\<close> is the default: they are replaced by 0 before adding) and adds the
  rest from 0; the sum of an empty column is 0. numpy adds a column of fewer than eight
  cells from left to right, which is the order taken here for every length.
\<close>

definition series_mul :: "Series \<Rightarrow> Series \<Rightarrow> Series" where
  "series_mul xs ys = map (\<lambda>(x, y). float_mul x y) (zip xs ys)"

definition skipna :: "float64 \<Rightarrow> float64" where
  "skipna x = (if isnan x then Fin 0 else x)"

definition series_sum :: "Series \<Rightarrow> float64" where
  "series_sum xs = foldl float_add (Fin 0) (map skipna xs)"

section \<open>The calculation engine\<close>

text \<open>Retailer A is Home Depot, retailer B is Lowe's.\<close>

datatype retailer = RetailerA | RetailerB

record PricingResult =
  subtotalA :: float64
  subtotalB :: float64
  taxA :: float64
  taxB :: float64
  totalA :: float64
  totalB :: float64
  cheaperRetailer :: retailer

text \<open>
  Lines 121 to 150 of \<^verbatim>\<open>app.py\<close>, on the frame \<^verbatim>\<open>edited_df\<close> and the slider's \<^verbatim>\<open>tax_rate\<close>. The
  result holds the six amounts the page shows and the retailer it marks as the winner.
\<close>

definition calculation_engine :: "DataFrame \<Rightarrow> float64 \<Rightarrow> py_error + PricingResult" where
  "calculation_engine edited_df tax_rate =
     py_bind (getitem edited_df ''Qty'') (\<lambda>qty.
     py_bind (getitem edited_df ''Price_HD'') (\<lambda>price_hd.
     let df1 = setitem edited_df ''Total HD'' (series_mul qty price_hd) in
     py_bind (getitem df1 ''Qty'') (\<lambda>qty2.
     py_bind (getitem df1 ''Price_Lowes'') (\<lambda>price_lowes.
     let df2 = setitem df1 ''Total Lowes'' (series_mul qty2 price_lowes) in
     py_bind (getitem df2 ''Total HD'') (\<lambda>total_hd.
     py_bind (getitem df2 ''Total Lowes'') (\<lambda>total_lowes.
     let hd_subtotal = series_sum total_hd;
         lowes_subtotal = series_sum total_lowes in
     py_bind (float_truediv tax_rate (Fin 100)) (\<lambda>tax_decimal.
     let hd_tax = float_mul hd_subtotal tax_decimal;
         lowes_tax = float_mul lowes_subtotal tax_decimal;
         hd_final = float_add hd_subtotal hd_tax;
         lowes_final = float_add lowes_subtotal lowes_tax
     in Inr \<lparr>subtotalA = hd_subtotal, subtotalB = lowes_subtotal,
              taxA = hd_tax, taxB = lowes_tax,
              totalA = hd_final, totalB = lowes_final,
              cheaperRetailer = (if float_lt hd_final lowes_final then RetailerA else RetailerB)\<rparr>)))))))"

text \<open>
  The engine on the shopping list as the service returned it: the frame is built from the
  records (line 109) and the user edits nothing in the table (line 113).
\<close>

definition compute :: "py_dict list \<Rightarrow> float64 \<Rightarrow> py_error + PricingResult" where
  "compute shopping_list tax_rate = calculation_engine (pd_DataFrame shopping_list) tax_rate"

text \<open>A line item with the three fields the engine reads.\<close>

definition line_item :: "float64 \<Rightarrow> float64 \<Rightarrow> float64 \<Rightarrow> py_dict" where
  "line_item q a b = [(''Qty'', JNumber q), (''Price_HD'', JNumber a), (''Price_Lowes'', JNumber b)]"

text \<open>
  Names for the parts of the engine's result: whether the frame has a column, the two row
  totals of lines 121 and 122, a subtotal with its tax added (lines 128 to 132), and the
  result assembled from the two subtotals and the tax factor.
\<close>

definition has_column :: "py_dict list \<Rightarrow> string \<Rightarrow> bool" where
  "has_column records c = (c \<in> set (column_names records))"

definition row_total_hd :: "py_dict \<Rightarrow> float64" where
  "row_total_hd row = float_mul (cell row ''Qty'') (cell row ''Price_HD'')"

definition row_total_lowes :: "py_dict \<Rightarrow> float64" where
  "row_total_lowes row = float_mul (cell row ''Qty'') (cell row ''Price_Lowes'')"

definition with_tax :: "float64 \<Rightarrow> float64 \<Rightarrow> float64" where
  "with_tax subtotal tax_decimal = float_add subtotal (float_mul subtotal tax_decimal)"

definition pricing :: "float64 \<Rightarrow> float64 \<Rightarrow> float64 \<Rightarrow> PricingResult" where
  "pricing hd_subtotal lowes_subtotal tax_decimal =
     \<lparr>subtotalA = hd_subtotal, subtotalB = lowes_subtotal,
      taxA = float_mul hd_subtotal tax_decimal, taxB = float_mul lowes_subtotal tax_decimal,
      totalA = with_tax hd_subtotal tax_decimal, totalB = with_tax lowes_subtotal tax_decimal,
      cheaperRetailer =
        (if float_lt (with_tax hd_subtotal tax_decimal) (with_tax lowes_subtotal tax_decimal)
         then RetailerA else RetailerB)\<rparr>"

text \<open>The tax factor of line 127: \<^verbatim>\<open>tax_rate / 100.0\<close>, whose divisor is never zero.\<close>

definition tax_decimal_of :: "float64 \<Rightarrow> float64" where
  "tax_decimal_of tax_rate = (case tax_rate of
       Fin a \<Rightarrow> round64 (a / 100) | PInf \<Rightarrow> PInf | NInf \<Rightarrow> NInf | NaN \<Rightarrow> NaN)"

text \<open>
  Predicates on the cells of a line item: a finite value, and a finite value that is not
  negative; a row is valid when its quantity and both prices are finite and not negative.
\<close>

fun is_finite :: "float64 \<Rightarrow> bool" where
  "is_finite (Fin a) = True"
| "is_finite _ = False"

fun finite_nonneg :: "float64 \<Rightarrow> bool" where
  "finite_nonneg (Fin a) = (0 \<le> a)"
| "finite_nonneg _ = False"

definition valid_row :: "py_dict \<Rightarrow> bool" where
  "valid_row row = (finite_nonneg (cell row ''Qty'') \<and> finite_nonneg (cell row ''Price_HD'')
     \<and> finite_nonneg (cell row ''Price_Lowes''))"


text \<open>A line item whose quantity and prices are whole numbers.\<close>

definition whole_item :: "nat \<times> nat \<times> nat \<Rightarrow> py_dict" where
  "whole_item = (\<lambda>(q, a, b). line_item (Fin (of_nat q)) (Fin (of_nat a)) (Fin (of_nat b)))"

section \<open>The ingestion adapter\<close>

type_synonym byte = "8 word"

text \<open>\<^verbatim>\<open>base64.b64encode(bs).decode('utf-8')\<close>: the standard alphabet, padded with \<open>=\<close>.\<close>

definition b64_alphabet :: string where
  "b64_alphabet = ''ABCDEFGHIJKLMNOPQRSTUVWXYZabcdefghijklmnopqrstuvwxyz0123456789+/''"

definition b64_digit :: "nat \<Rightarrow> char" where
  "b64_digit n = b64_alphabet ! (n mod 64)"

fun b64encode :: "byte list \<Rightarrow> string" where
  "b64encode (a # b # c # rest) =
     (let n = unat a * 65536 + unat b * 256 + unat c in
      b64_digit (n div 262144) # b64_digit (n div 4096) # b64_digit (n div 64) # b64_digit n #
      b64encode rest)"
| "b64encode [a, b] =
     (let n = unat a * 65536 + unat b * 256 in
      [b64_digit (n div 262144), b64_digit (n div 4096), b64_digit (n div 64), CHR ''=''])"
| "b64encode [a] =
     (let n = unat a * 65536 in
      [b64_digit (n div 262144), b64_digit (n div 4096), CHR ''='', CHR ''=''])"
| "b64encode [] = []"

text \<open>
  The uploaded file: its declared media type (\<^verbatim>\<open>uploaded_file.type\<close>) and its bytes
  (\<^verbatim>\<open>read()\<close> and \<^verbatim>\<open>getvalue()\<close> both return them).
\<close>

record UploadedFile =
  media_type :: string
  getvalue :: "byte list"

text \<open>
  PyMuPDF is not part of the repository: the calls \<^verbatim>\<open>process_file\<close> makes are parameters.
  Each of them can raise. \<^verbatim>\<open>fitz_open\<close> parses the bytes as a PDF, \<^verbatim>\<open>page_count\<close> is
  \<^verbatim>\<open>len(doc)\<close>, \<^verbatim>\<open>get_pixmap\<close> takes the two zoom factors of \<^verbatim>\<open>fitz.Matrix\<close>, \<^verbatim>\<open>tobytes\<close> the
  output format.
\<close>

record ('doc, 'page, 'pix) fitz =
  fitz_open :: "byte list \<Rightarrow> py_error + 'doc"
  page_count :: "'doc \<Rightarrow> nat"
  load_page :: "'doc \<Rightarrow> nat \<Rightarrow> py_error + 'page"
  get_pixmap :: "'page \<Rightarrow> nat \<times> nat \<Rightarrow> py_error + 'pix"
  tobytes :: "'pix \<Rightarrow> string \<Rightarrow> py_error + byte list"

text \<open>The body of the loop of line 34, for one page number.\<close>

definition render_page :: "('doc, 'page, 'pix) fitz \<Rightarrow> 'doc \<Rightarrow> nat \<Rightarrow> py_error + string" where
  "render_page lib doc page_num =
     py_bind (load_page lib doc page_num) (\<lambda>page.
     py_bind (get_pixmap lib page (3, 3)) (\<lambda>pix.
     py_bind (tobytes lib pix ''png'') (\<lambda>img_bytes.
     Inr (b64encode img_bytes))))"

text \<open>The loop: \<^verbatim>\<open>image_data\<close> is the accumulator, an exception leaves the loop.\<close>

fun render_pages ::
  "('doc, 'page, 'pix) fitz \<Rightarrow> 'doc \<Rightarrow> nat list \<Rightarrow> string list \<Rightarrow> py_error + string list" where
  "render_pages lib doc [] image_data = Inr image_data"
| "render_pages lib doc (page_num # rest) image_data =
     py_bind (render_page lib doc page_num) (\<lambda>base64_img.
     render_pages lib doc rest (image_data @ [base64_img]))"

definition process_file :: "('doc, 'page, 'pix) fitz \<Rightarrow> UploadedFile \<Rightarrow> py_error + string list" where
  "process_file lib uploaded_file =
     (if media_type uploaded_file = ''application/pdf'' then
        py_bind (fitz_open lib (getvalue uploaded_file)) (\<lambda>doc.
        render_pages lib doc [0..<min (page_count lib doc) 5] [])
      else Inr ([] @ [b64encode (getvalue uploaded_file)]))"

text \<open>
  A small PDF library to run \<^verbatim>\<open>process_file\<close> on: a file parses when it starts with the
  byte \<open>37\<close> (\<open>%\<close>), the bytes after it are its pages, and a page \<open>255\<close> is damaged
  and cannot be loaded; a pixmap is the page with the two zoom factors, and its bytes are
  these three values.
\<close>

definition sample_fitz :: "(byte list, byte, byte \<times> nat \<times> nat) fitz" where
  "sample_fitz =
     \<lparr>fitz_open = (\<lambda>bs. if take 1 bs = [37] then Inr (drop 1 bs)
                       else Inl (LibraryError ''cannot open broken document'')),
      page_count = length,
      load_page = (\<lambda>doc n. if n < length doc \<and> doc ! n \<noteq> 255 then Inr (doc ! n)
                           else Inl (LibraryError ''cannot load page'')),
      get_pixmap = (\<lambda>page (zx, zy). Inr (page, zx, zy)),
      tobytes = (\<lambda>(page, zx, zy) fmt. Inr [page, of_nat zx, of_nat zy])\<rparr>"

section \<open>Rounding: exponent, nearest value, monotonicity\<close>

lemma p2_pos [simp]: "0 < (2::rat) powi a"
  by (simp add: zero_less_power_int)

lemma p2_less_iff [simp]: "(2::rat) powi a < 2 powi b \<longleftrightarrow> a < b"
proof
  assume h: "(2::rat) powi a < 2 powi b"
  show "a < b"
  proof (rule ccontr)
    assume "\<not> a < b"
    then have "b \<le> a" by simp
    then have "(2::rat) powi b \<le> 2 powi a" by (intro power_int_increasing) simp_all
    with h show False by simp
  qed
next
  assume "a < b"
  then show "(2::rat) powi a < 2 powi b" by (intro power_int_strict_increasing) simp_all
qed

lemma p2_le_iff [simp]: "(2::rat) powi a \<le> 2 powi b \<longleftrightarrow> a \<le> b"
  using p2_less_iff[of b a] by (simp only: not_less[symmetric])

lemma p2_shift: "(2::rat) powi m * 2 powi n = 2 powi (m + n)"
  by (simp add: power_int_add)

lemma floorlog2_pos: "0 < n \<Longrightarrow> 0 < floorlog 2 n"
  by (simp add: floorlog_def)

lemma ilog2_ge1:
  assumes "1 \<le> x"
  shows "2 powi (ilog2 x) \<le> x \<and> x < 2 powi (ilog2 x + 1)"
proof -
  define n where "n = nat \<lfloor>x\<rfloor>"
  define k where "k = floorlog 2 n"
  have n1: "0 < n" using assms by (simp add: n_def)
  have k1: "0 < k" using n1 by (simp add: k_def floorlog2_pos)
  have b: "2 ^ (k - 1) \<le> n" "n < 2 ^ k"
    using floorlog_bounds[of n 2] n1 by (simp_all add: k_def)
  have nx: "rat_of_nat n \<le> x" "x < rat_of_nat n + 1"
    using assms by (simp_all add: n_def) linarith
  have "ilog2 x = int (k - 1)" "ilog2 x + 1 = int k"
    using assms k1 by (simp_all add: ilog2_def bitlen_def n_def k_def)
  then have e: "(2::rat) powi (ilog2 x) = 2 ^ (k - 1)" "(2::rat) powi (ilog2 x + 1) = 2 ^ k"
    by (simp_all only: power_int_of_nat)
  have "(2::rat) ^ (k - 1) \<le> rat_of_nat n"
    using b(1) by (metis of_nat_le_iff of_nat_numeral of_nat_power)
  moreover have "rat_of_nat n + 1 \<le> 2 ^ k"
  proof -
    have "n + 1 \<le> 2 ^ k" using b(2) by simp
    then have "rat_of_nat (n + 1) \<le> rat_of_nat (2 ^ k)" by (simp only: of_nat_le_iff)
    then show ?thesis by simp
  qed
  ultimately show ?thesis using nx unfolding e by linarith
qed

lemma ilog2_lt1:
  assumes "0 < x" "x < 1"
  shows "2 powi (ilog2 x) \<le> x \<and> x < 2 powi (ilog2 x + 1)"
proof -
  define y where "y = 1 / x"
  define m where "m = nat (\<lceil>y\<rceil> - 1)"
  define k where "k = floorlog 2 m"
  have y1: "1 < y" using assms by (simp add: y_def)
  then have cy: "2 \<le> \<lceil>y\<rceil>" by linarith
  have m1: "0 < m" using cy by (simp add: m_def)
  have k1: "0 < k" using m1 by (simp add: k_def floorlog2_pos)
  have b: "2 ^ (k - 1) \<le> m" "m < 2 ^ k"
    using floorlog_bounds[of m 2] m1 by (simp_all add: k_def)
  have my: "rat_of_nat m < y" "y \<le> rat_of_nat m + 1"
    using cy by (simp_all add: m_def) linarith+
  have "ilog2 x = - int k" "ilog2 x + 1 = - int (k - 1)"
    using assms k1 by (simp_all add: ilog2_def bitlen_def m_def k_def y_def)
  then have e: "(2::rat) powi (ilog2 x) = 1 / 2 ^ k" "(2::rat) powi (ilog2 x + 1) = 1 / 2 ^ (k - 1)"
    by (simp_all only: power_int_minus_divide power_int_of_nat)
  have lo: "(2::rat) ^ (k - 1) \<le> rat_of_nat m"
    using b(1) by (metis of_nat_le_iff of_nat_numeral of_nat_power)
  have hi: "rat_of_nat m + 1 \<le> 2 ^ k"
  proof -
    have "m + 1 \<le> 2 ^ k" using b(2) by simp
    then have "rat_of_nat (m + 1) \<le> rat_of_nat (2 ^ k)" by (simp only: of_nat_le_iff)
    then show ?thesis by simp
  qed
  have "y \<le> 2 ^ k" using my hi by linarith
  then have "1 / 2 ^ k \<le> x"
    using assms by (simp add: y_def field_simps)
  moreover have "2 ^ (k - 1) < y" using my lo by linarith
  then have "x < 1 / 2 ^ (k - 1)"
    using assms by (simp add: y_def field_simps)
  ultimately show ?thesis
    unfolding e by simp
qed

lemma ilog2_bounds:
  assumes "0 < x"
  shows "2 powi (ilog2 x) \<le> x" and "x < 2 powi (ilog2 x + 1)"
  using ilog2_ge1[of x] ilog2_lt1[of x] assms by (cases "1 \<le> x"; simp)+

lemma ilog2_unique:
  assumes "2 powi e \<le> x" "x < 2 powi (e + 1)"
  shows "ilog2 x = e"
proof -
  have x0: "0 < x" using assms(1) p2_pos[of e] by linarith
  note b = ilog2_bounds[OF x0]
  have "(2::rat) powi e < 2 powi (ilog2 x + 1)" using assms(1) b(2) by linarith
  then have 1: "e < ilog2 x + 1" by simp
  have "(2::rat) powi (ilog2 x) < 2 powi (e + 1)" using assms(2) b(1) by linarith
  then have 2: "ilog2 x < e + 1" by simp
  show ?thesis using 1 2 by simp
qed

lemma rhe_of_int [simp]: "round_half_even (of_int n) = n"
  by (simp add: round_half_even_def)

lemma rhe_range: "\<lfloor>x\<rfloor> \<le> round_half_even x" "round_half_even x \<le> \<lfloor>x\<rfloor> + 1"
  by (simp_all add: round_half_even_def Let_def)

lemma rhe_mono:
  assumes "a \<le> b"
  shows "round_half_even a \<le> round_half_even b"
proof (cases "\<lfloor>a\<rfloor> = \<lfloor>b\<rfloor>")
  case True
  have "a - of_int \<lfloor>b\<rfloor> \<le> b - of_int \<lfloor>b\<rfloor>" using assms by simp
  then show ?thesis
    by (simp add: round_half_even_def Let_def True)
next
  case False
  then have "\<lfloor>a\<rfloor> + 1 \<le> \<lfloor>b\<rfloor>" using floor_mono[OF assms] by simp
  then show ?thesis using rhe_range(2)[of a] rhe_range(1)[of b] by linarith
qed

lemma rhe_ge: "of_int n \<le> x \<Longrightarrow> n \<le> round_half_even x"
  using rhe_mono[of "of_int n" x] by simp

lemma rhe_le: "x \<le> of_int n \<Longrightarrow> round_half_even x \<le> n"
  using rhe_mono[of x "of_int n"] by simp

lemma ulp_pos [simp]: "0 < ulp a"
  by (simp add: ulp_def)

lemma ulp_neq0 [simp]: "ulp a \<noteq> 0"
  by (simp add: ulp_def)

lemma nearest_zero [simp]: "nearest 0 = 0"
  using rhe_of_int[of 0] by (simp add: nearest_def)

lemma ulp_nonneg [simp]: "0 \<le> ulp a"
  using ulp_pos[of a] by (rule less_imp_le)

lemma div_ulp_mono: "x \<le> y \<Longrightarrow> x / ulp a \<le> y / ulp a"
  by (rule divide_right_mono) simp_all

lemma mant_nonneg: "0 \<le> a \<Longrightarrow> 0 \<le> round_half_even (a / ulp a)"
proof -
  assume "0 \<le> a"
  then have "of_int 0 \<le> a / ulp a" using div_ulp_mono[of 0 a a] by simp
  then show ?thesis by (rule rhe_ge)
qed

lemma nearest_nonneg: "0 \<le> a \<Longrightarrow> 0 \<le> nearest a"
  using mant_nonneg[of a] by (simp add: nearest_def)

lemma nearest_le_top:
  assumes "0 < a"
  shows "nearest a \<le> 2 powi (expo a + 1)"
proof -
  have "a < 2 powi (ilog2 a + 1)" using ilog2_bounds(2)[OF assms] .
  also have "\<dots> \<le> 2 powi (expo a + 1)" by (simp add: expo_def)
  finally have "a \<le> 2 powi (expo a + 1)" by simp
  then have "a / ulp a \<le> 2 powi (expo a + 1) / ulp a"
    by (rule div_ulp_mono)
  also have "2 powi (expo a + 1) / ulp a = (2::rat) powi 53"
    by (simp add: ulp_def flip: power_int_diff)
  also have "\<dots> = of_int (2 ^ 53)" by simp
  finally have "round_half_even (a / ulp a) \<le> 2 ^ 53" by (rule rhe_le)
  then have "rat_of_int (round_half_even (a / ulp a)) \<le> rat_of_int (2 ^ 53)"
    by (simp only: of_int_le_iff)
  then have "nearest a \<le> rat_of_int (2 ^ 53) * ulp a"
    by (simp add: nearest_def)
  also have "\<dots> = 2 powi 53 * 2 powi (expo a - 52)" by (simp add: ulp_def)
  also have "\<dots> = 2 powi (53 + (expo a - 52))" by (rule p2_shift)
  also have "53 + (expo a - 52) = expo a + 1" by simp
  finally show ?thesis .
qed

lemma nearest_ge_bot:
  assumes "0 < a" "- 1022 \<le> ilog2 a"
  shows "2 powi (expo a) \<le> nearest a"
proof -
  have e: "expo a = ilog2 a" using assms(2) by (simp add: expo_def)
  have "2 powi (expo a) \<le> a" using ilog2_bounds(1)[OF assms(1)] by (simp add: e)
  then have "2 powi (expo a) / ulp a \<le> a / ulp a"
    by (rule div_ulp_mono)
  moreover have "2 powi (expo a) / ulp a = (2::rat) powi 52"
    by (simp add: ulp_def flip: power_int_diff)
  moreover have "(2::rat) powi 52 = of_int (2 ^ 52)" by simp
  ultimately have "of_int (2 ^ 52) \<le> a / ulp a" by simp
  then have "2 ^ 52 \<le> round_half_even (a / ulp a)" by (rule rhe_ge)
  then have "rat_of_int (2 ^ 52) \<le> rat_of_int (round_half_even (a / ulp a))"
    by (simp only: of_int_le_iff)
  then have "rat_of_int (2 ^ 52) * ulp a \<le> nearest a"
    by (simp add: nearest_def)
  moreover have "rat_of_int (2 ^ 52) * ulp a = 2 powi (expo a)"
  proof -
    have "rat_of_int (2 ^ 52) * ulp a = 2 powi 52 * 2 powi (expo a - 52)"
      by (simp add: ulp_def)
    also have "\<dots> = 2 powi (52 + (expo a - 52))" by (rule p2_shift)
    also have "52 + (expo a - 52) = expo a" by simp
    finally show ?thesis .
  qed
  ultimately show ?thesis by simp
qed

lemma ilog2_mono:
  assumes "0 < a" "a \<le> b"
  shows "ilog2 a \<le> ilog2 b"
proof -
  have "0 < b" using assms by simp
  have "2 powi (ilog2 a) \<le> a" using ilog2_bounds(1)[OF assms(1)] .
  also have "a \<le> b" by fact
  also have "b < 2 powi (ilog2 b + 1)" using ilog2_bounds(2)[OF \<open>0 < b\<close>] .
  finally show ?thesis by simp
qed

lemma nearest_mono:
  assumes "0 < a" "a \<le> b"
  shows "nearest a \<le> nearest b"
proof -
  have b0: "0 < b" using assms by simp
  have le: "expo a \<le> expo b"
    using ilog2_mono[OF assms] by (simp add: expo_def)
  show ?thesis
  proof (cases "expo a = expo b")
    case True
    then have u: "ulp a = ulp b" by (simp add: ulp_def)
    have "a / ulp b \<le> b / ulp b" using assms(2) by (rule div_ulp_mono)
    then have "round_half_even (a / ulp b) \<le> round_half_even (b / ulp b)" by (rule rhe_mono)
    then show ?thesis by (simp add: nearest_def u)
  next
    case False
    then have lt: "expo a + 1 \<le> expo b" using le by simp
    then have "- 1022 \<le> ilog2 b" by (auto simp: expo_def)
    then have "2 powi (expo b) \<le> nearest b" using nearest_ge_bot[OF b0] by simp
    moreover have "nearest a \<le> 2 powi (expo a + 1)" using nearest_le_top[OF assms(1)] .
    moreover have "(2::rat) powi (expo a + 1) \<le> 2 powi (expo b)" using lt by simp
    ultimately show ?thesis by linarith
  qed
qed

lemma mant_le:
  assumes "0 < a"
  shows "round_half_even (a / ulp a) \<le> 2 ^ 53"
proof -
  have "a < 2 powi (ilog2 a + 1)" using ilog2_bounds(2)[OF assms] .
  also have "\<dots> \<le> 2 powi (expo a + 1)" by (simp add: expo_def)
  finally have "a \<le> 2 powi (expo a + 1)" by simp
  then have "a / ulp a \<le> 2 powi (expo a + 1) / ulp a"
    by (rule div_ulp_mono)
  also have "2 powi (expo a + 1) / ulp a = (2::rat) powi 53"
    by (simp add: ulp_def flip: power_int_diff)
  also have "\<dots> = of_int (2 ^ 53)" by simp
  finally show ?thesis by (rule rhe_le)
qed

lemma nearest_grid:
  assumes "0 < n" "n < 2 ^ 53" "- 1074 \<le> k"
  shows "nearest (of_int n * 2 powi k) = of_int n * 2 powi k"
proof -
  define y :: rat where "y = of_int n * 2 powi k"
  have y0: "0 < y" using assms(1) by (simp add: y_def)
  have "rat_of_int n < rat_of_int (2 ^ 53)" using assms(2) by (simp only: of_int_less_iff)
  then have "y < rat_of_int (2 ^ 53) * 2 powi k" by (simp add: y_def)
  also have "\<dots> = 2 powi 53 * 2 powi k" by simp
  also have "\<dots> = 2 powi (53 + k)" by (rule p2_shift)
  finally have "2 powi (ilog2 y) < (2::rat) powi (53 + k)"
    using ilog2_bounds(1)[OF y0] by linarith
  then have "ilog2 y < 53 + k" by simp
  then have ek: "expo y \<le> k + 52" using assms(3) by (simp add: expo_def)
  define j where "j = nat (k + 52 - expo y)"
  have kj: "k = int j + (expo y - 52)" using ek by (simp add: j_def)
  have "(2::rat) powi k = 2 powi (int j) * 2 powi (expo y - 52)"
    by (subst kj) (rule p2_shift[symmetric])
  then have pk: "(2::rat) powi k = 2 ^ j * ulp y" by (simp add: ulp_def)
  have yy: "y = rat_of_int (n * 2 ^ j) * ulp y"
  proof -
    have "y = of_int n * 2 powi k" by (fact y_def)
    also have "\<dots> = of_int n * (2 ^ j * ulp y)" by (simp only: pk)
    also have "\<dots> = rat_of_int (n * 2 ^ j) * ulp y" by simp
    finally show ?thesis .
  qed
  have "y / ulp y = rat_of_int (n * 2 ^ j) * ulp y / ulp y"
    using arg_cong[OF yy, of "\<lambda>t. t / ulp y"] .
  also have "\<dots> = rat_of_int (n * 2 ^ j)" by simp
  finally have "round_half_even (y / ulp y) = n * 2 ^ j" by (simp only: rhe_of_int)
  then have "nearest y = rat_of_int (n * 2 ^ j) * ulp y" by (simp only: nearest_def)
  also have "\<dots> = y" using yy by (rule sym)
  finally show ?thesis unfolding y_def .
qed

lemma nearest_top_grid:
  assumes "- 1075 \<le> k"
  shows "nearest (2 powi (53 + k)) = 2 powi (53 + k)"
proof -
  have "nearest (of_int (2 ^ 52) * 2 powi (k + 1)) = of_int (2 ^ 52) * 2 powi (k + 1)"
    by (rule nearest_grid) (use assms in simp_all)
  moreover have "rat_of_int (2 ^ 52) * 2 powi (k + 1) = 2 powi (53 + k)"
  proof -
    have "rat_of_int (2 ^ 52) * 2 powi (k + 1) = 2 powi 52 * 2 powi (k + 1)" by simp
    also have "\<dots> = 2 powi (52 + (k + 1))" by (rule p2_shift)
    also have "52 + (k + 1) = 53 + k" by simp
    finally show ?thesis .
  qed
  ultimately show ?thesis by simp
qed

lemma nearest_idem:
  assumes "0 < a"
  shows "nearest (nearest a) = nearest a"
proof -
  define m where "m = round_half_even (a / ulp a)"
  have m0: "0 \<le> m" using mant_nonneg[of a] assms by (simp add: m_def)
  have m53: "m \<le> 2 ^ 53" using mant_le[OF assms] by (simp add: m_def)
  have e: "- 1022 \<le> expo a" by (simp add: expo_def)
  have na: "nearest a = of_int m * 2 powi (expo a - 52)"
    by (simp add: nearest_def m_def ulp_def)
  consider "m = 0" | "0 < m" "m < 2 ^ 53" | "m = 2 ^ 53" using m0 m53 by linarith
  then show ?thesis
  proof cases
    case 1
    then have "nearest a = 0" by (simp add: na)
    then show ?thesis by simp
  next
    case 2
    show ?thesis unfolding na by (rule nearest_grid) (use 2 e in simp_all)
  next
    case 3
    have "nearest a = 2 powi 53 * 2 powi (expo a - 52)" by (simp add: na 3)
    also have "\<dots> = 2 powi (53 + (expo a - 52))" by (rule p2_shift)
    finally have n: "nearest a = 2 powi (53 + (expo a - 52))" .
    show ?thesis unfolding n by (rule nearest_top_grid) (use e in simp)
  qed
qed

lemma ilog2_zero [simp]: "ilog2 0 = 0"
  by (simp add: ilog2_def bitlen_def floorlog_def)

lemma round64_zero [simp]: "round64 0 = Fin 0"
  by (simp add: round64_def)

lemma round64_pos:
  "0 < x \<Longrightarrow> round64 x = (if 1023 < ilog2 (nearest x) then PInf else Fin (nearest x))"
  by (simp add: round64_def Let_def)

lemma round64_idem:
  assumes "0 \<le> x" "round64 x = Fin y"
  shows "round64 y = Fin y"
proof (cases "x = 0")
  case True
  then show ?thesis using assms(2) by auto
next
  case False
  then have x0: "0 < x" using assms(1) by simp
  have y: "y = nearest x" "\<not> 1023 < ilog2 (nearest x)"
    using assms(2) by (simp_all add: round64_pos[OF x0] split: if_splits)
  show ?thesis
  proof (cases "y = 0")
    case True
    then show ?thesis by simp
  next
    case False
    then have y0: "0 < y" using nearest_nonneg[of x] x0 y(1) by simp
    have ny: "nearest y = y" unfolding y(1) by (rule nearest_idem[OF x0])
    have "\<not> 1023 < ilog2 y" using y by simp
    then show ?thesis by (simp add: round64_pos[OF y0] ny)
  qed
qed

lemma ilog2_of_nat_le:
  assumes "0 < n" "n \<le> 2 ^ 53"
  shows "ilog2 (rat_of_nat n) \<le> 53"
proof -
  have x0: "0 < rat_of_nat n" using assms(1) by simp
  have "rat_of_nat n \<le> rat_of_nat (2 ^ 53)" using assms(2) by (simp only: of_nat_le_iff)
  also have "\<dots> < 2 powi 54" by simp
  finally have "2 powi (ilog2 (rat_of_nat n)) < (2::rat) powi 54"
    using ilog2_bounds(1)[OF x0] by linarith
  then have "ilog2 (rat_of_nat n) < 54" by (simp only: p2_less_iff)
  then show ?thesis by simp
qed

lemma round64_of_nat:
  assumes "n \<le> 2 ^ 53"
  shows "round64 (of_nat n) = Fin (of_nat n)"
proof (cases "n = 0")
  case True
  then show ?thesis by simp
next
  case False
  then have n0: "0 < n" by simp
  have g: "nearest (rat_of_nat n) = rat_of_nat n"
  proof (cases "n = 2 ^ 53")
    case True
    have "nearest (2 powi (53 + 0)) = 2 powi (53 + 0)" by (rule nearest_top_grid) simp
    then show ?thesis by (simp add: True)
  next
    case False
    have "nearest (of_int (int n) * 2 powi 0) = of_int (int n) * 2 powi 0"
      by (rule nearest_grid) (use n0 False assms in simp_all)
    then show ?thesis by simp
  qed
  have "\<not> 1023 < ilog2 (rat_of_nat n)" using ilog2_of_nat_le[OF n0 assms] by simp
  moreover have "0 < rat_of_nat n" using n0 by simp
  ultimately show ?thesis by (simp add: round64_pos g)
qed

section \<open>Order and arithmetic on non-negative values\<close>

lemma round64_nonneg: "0 \<le> x \<Longrightarrow> nonneg (round64 x)"
  using nearest_nonneg[of x] by (cases "x = 0") (simp_all add: round64_pos)

lemma round64_mono:
  assumes "0 \<le> x" "x \<le> y"
  shows "float_le (round64 x) (round64 y)"
proof (cases "x = 0")
  case True
  have "nonneg (round64 y)" using assms by (intro round64_nonneg) simp
  then show ?thesis by (cases "round64 y") (simp_all add: True)
next
  case False
  then have x0: "0 < x" and y0: "0 < y" using assms by simp_all
  have n: "nearest x \<le> nearest y" using nearest_mono[OF x0 assms(2)] .
  show ?thesis
  proof (cases "1023 < ilog2 (nearest x)")
    case True
    then have "nearest x \<noteq> 0" by auto
    then have "0 < nearest x" using nearest_nonneg[of x] x0 by simp
    then have "ilog2 (nearest x) \<le> ilog2 (nearest y)" using n by (rule ilog2_mono)
    then show ?thesis using True by (simp add: round64_pos x0 y0)
  next
    case False
    then show ?thesis using n by (simp add: round64_pos x0 y0)
  qed
qed


lemma float_le_trans: "float_le a b \<Longrightarrow> float_le b c \<Longrightarrow> float_le a c"
  by (cases a; cases b; cases c) simp_all

lemma float_le_not_lt: "float_le a b \<Longrightarrow> \<not> float_lt b a"
  by (cases a; cases b) simp_all

lemma float_lt_imp_le: "float_lt a b \<Longrightarrow> float_le a b"
  by (cases a; cases b) simp_all

lemma nonneg_total: "nonneg a \<Longrightarrow> nonneg b \<Longrightarrow> float_lt a b \<or> float_le b a"
  by (cases a; cases b) auto

lemma float_add_nonneg: "nonneg a \<Longrightarrow> nonneg b \<Longrightarrow> nonneg (float_add a b)"
  by (cases a; cases b) (simp_all add: round64_nonneg)

lemma float_le_PInf: "nonneg a \<Longrightarrow> float_le a PInf"
  by (cases a) simp_all

lemma nonneg_le: "nonneg a \<Longrightarrow> float_le a c \<Longrightarrow> nonneg c"
  by (cases a; cases c) simp_all

lemma float_add_mono:
  assumes "nonneg a" "nonneg b" "float_le a c" "float_le b d"
  shows "float_le (float_add a b) (float_add c d)"
proof -
  have nn: "nonneg c" "nonneg d" using assms by (auto intro: nonneg_le)
  show ?thesis
  proof (cases "\<exists>c' d'. c = Fin c' \<and> d = Fin d'")
    case True
    then obtain c' d' where cd: "c = Fin c'" "d = Fin d'" by blast
    from assms cd obtain a' b' where ab: "a = Fin a'" "b = Fin b'"
      by (cases a; cases b) simp_all
    have "0 \<le> a' + b'" "a' + b' \<le> c' + d'" using assms ab cd by simp_all
    then show ?thesis using round64_mono[of "a' + b'" "c' + d'"] by (simp add: ab cd)
  next
    case False
    then have "float_add c d = PInf" using nn by (cases c; cases d) simp_all
    then show ?thesis using float_le_PInf[OF float_add_nonneg[OF assms(1,2)]] by simp
  qed
qed

lemma float_mul_fin_nonneg: "0 \<le> a \<Longrightarrow> 0 \<le> b \<Longrightarrow> nonneg (float_mul (Fin a) (Fin b))"
  by (simp add: round64_nonneg)

lemma float_mul_fin_mono:
  assumes "0 \<le> a" "a \<le> a'" "0 \<le> b" "b \<le> b'"
  shows "float_le (float_mul (Fin a) (Fin b)) (float_mul (Fin a') (Fin b'))"
proof -
  have "a * b \<le> a' * b'" using assms by (intro mult_mono) simp_all
  moreover have "0 \<le> a * b" using assms by simp
  ultimately show ?thesis by (simp add: round64_mono)
qed

section \<open>Sums of columns\<close>

lemma round64_neg:
  "x < 0 \<Longrightarrow> round64 x = (if 1023 < ilog2 (nearest (- x)) then NInf else Fin (- nearest (- x)))"
  by (simp add: round64_def Let_def)

lemma round64_idem_neg:
  assumes "x < 0" "round64 x = Fin y"
  shows "round64 y = Fin y"
proof -
  have x0: "0 < - x" using assms(1) by simp
  have y: "y = - nearest (- x)" "\<not> 1023 < ilog2 (nearest (- x))"
    using assms(2) by (simp_all add: round64_neg[OF assms(1)] split: if_splits)
  show ?thesis
  proof (cases "y = 0")
    case True
    then show ?thesis by simp
  next
    case False
    then have y0: "y < 0" using nearest_nonneg[of "- x"] x0 y(1) by simp
    have ny: "nearest (- y) = - y" unfolding y(1) using nearest_idem[OF x0] by simp
    have "\<not> 1023 < ilog2 (- y)" using y by simp
    then show ?thesis by (simp add: round64_neg[OF y0] ny)
  qed
qed

lemma round64_representable: "representable (round64 x)"
proof (cases "round64 x")
  case (Fin y)
  have "round64 y = Fin y"
  proof (cases "0 \<le> x")
    case True
    then show ?thesis using Fin by (rule round64_idem)
  next
    case False
    then have "x < 0" by simp
    then show ?thesis using Fin by (rule round64_idem_neg)
  qed
  then show ?thesis by (simp add: Fin is_double_def)
qed simp_all

lemma is_double_zero [simp]: "is_double 0"
  by (simp add: is_double_def)

lemma float_add_representable: "representable (float_add a b)"
  by (cases a; cases b) (simp_all add: round64_representable)




lemma series_sum_Nil [simp]: "series_sum [] = Fin 0"
  by (simp add: series_sum_def)

lemma series_sum_snoc: "series_sum (xs @ [x]) = float_add (series_sum xs) (skipna x)"
  by (simp add: series_sum_def)

lemma series_sum_representable: "representable (series_sum xs)"
  by (induction xs rule: rev_induct) (simp_all add: series_sum_snoc float_add_representable)




lemma nonneg_not_nan: "nonneg x \<Longrightarrow> \<not> isnan x"
  by (cases x) simp_all

lemma skipna_nonneg: "nonneg x \<Longrightarrow> skipna x = x"
  by (simp add: skipna_def nonneg_not_nan)

lemma series_sum_nonneg: "\<forall>x \<in> set xs. nonneg x \<Longrightarrow> nonneg (series_sum xs)"
  by (induction xs rule: rev_induct) (simp_all add: series_sum_snoc float_add_nonneg skipna_nonneg)


section \<open>The engine in closed form\<close>

lemma has_column_iff: "has_column records c \<longleftrightarrow> (\<exists>row \<in> set records. c \<in> fst ` set row)"
  by (auto simp: has_column_def column_names_def)

lemma getitem_pd_DataFrame:
  "getitem (pd_DataFrame records) c =
     (if has_column records c then Inr (map (\<lambda>row. cell row c) records) else Inl (KeyError c))"
  by (simp add: getitem_def pd_DataFrame_def has_column_def map_of_map_restrict restrict_map_def)

lemma getitem_setitem:
  "getitem (setitem df k s) c = (if c = k then Inr s else getitem df c)"
  by (simp add: getitem_def setitem_def update_conv')

lemma series_mul_map:
  "series_mul (map f records) (map g records) = map (\<lambda>row. float_mul (f row) (g row)) records"
  by (induction records) (simp_all add: series_mul_def)

lemma calculation_engine_pd_DataFrame:
  assumes "has_column records ''Qty''" "has_column records ''Price_HD''"
    "has_column records ''Price_Lowes''"
  shows "compute records tax_rate =
     py_bind (float_truediv tax_rate (Fin 100)) (\<lambda>tax_decimal.
       Inr (pricing (series_sum (map row_total_hd records))
                   (series_sum (map row_total_lowes records)) tax_decimal))"
  using assms
  by (simp add: compute_def calculation_engine_def getitem_setitem getitem_pd_DataFrame
      py_bind_def Let_def series_mul_map pricing_def with_tax_def row_total_hd_def[abs_def]
      row_total_lowes_def[abs_def])

lemma compute_KeyError:
  "\<not> has_column records ''Qty'' \<Longrightarrow> compute records tax_rate = Inl (KeyError ''Qty'')"
  "has_column records ''Qty'' \<Longrightarrow> \<not> has_column records ''Price_HD'' \<Longrightarrow>
     compute records tax_rate = Inl (KeyError ''Price_HD'')"
  "has_column records ''Qty'' \<Longrightarrow> has_column records ''Price_HD'' \<Longrightarrow>
     \<not> has_column records ''Price_Lowes'' \<Longrightarrow>
     compute records tax_rate = Inl (KeyError ''Price_Lowes'')"
  by (simp_all add: compute_def calculation_engine_def getitem_setitem getitem_pd_DataFrame
      py_bind_def Let_def)

lemma float_truediv_100 [simp]: "float_truediv tax_rate (Fin 100) = Inr (tax_decimal_of tax_rate)"
  by (simp add: tax_decimal_of_def)

lemma compute_closed_form:
  "compute records tax_rate =
     (if \<not> has_column records ''Qty'' then Inl (KeyError ''Qty'')
      else if \<not> has_column records ''Price_HD'' then Inl (KeyError ''Price_HD'')
      else if \<not> has_column records ''Price_Lowes'' then Inl (KeyError ''Price_Lowes'')
      else Inr (pricing (series_sum (map row_total_hd records))
                  (series_sum (map row_total_lowes records)) (tax_decimal_of tax_rate)))"
  using compute_KeyError[of records tax_rate] calculation_engine_pd_DataFrame[of records tax_rate]
  by (simp add: py_bind_def tax_decimal_of_def)

lemma compute_Inr:
  assumes "compute records tax_rate = Inr r"
  shows "r = pricing (series_sum (map row_total_hd records))
                  (series_sum (map row_total_lowes records)) (tax_decimal_of tax_rate)"
    and "has_column records ''Qty''" "has_column records ''Price_HD''"
    "has_column records ''Price_Lowes''"
  using assms by (simp_all add: compute_closed_form split: if_splits)

lemma float_lt_irrefl [simp]: "\<not> float_lt x x"
  by (cases x) simp_all

lemma cell_line_item [simp]:
  "cell (line_item q a b) ''Qty'' = q"
  "cell (line_item q a b) ''Price_HD'' = a"
  "cell (line_item q a b) ''Price_Lowes'' = b"
  by (simp_all add: cell_def line_item_def)

lemma has_column_line_item [simp]:
  "has_column (line_item q a b # records) ''Qty''"
  "has_column (line_item q a b # records) ''Price_HD''"
  "has_column (line_item q a b # records) ''Price_Lowes''"
  by (simp_all add: has_column_iff line_item_def)

lemma calculation_engine_no_rows:
  assumes "float_truediv tax_rate (Fin 100) = Inr (Fin d)"
  shows "calculation_engine [(''Qty'', []), (''Price_HD'', []), (''Price_Lowes'', [])] tax_rate =
     Inr \<lparr>subtotalA = Fin 0, subtotalB = Fin 0, taxA = Fin 0, taxB = Fin 0,
          totalA = Fin 0, totalB = Fin 0, cheaperRetailer = RetailerB\<rparr>"
  using assms
  by (simp add: calculation_engine_def getitem_def setitem_def py_bind_def series_mul_def
      series_sum_def Let_def)

section \<open>Facts about the engine\<close>

lemma round64_numeral [simp]:
  "numeral k \<le> (2::nat) ^ 53 \<Longrightarrow> round64 (numeral k) = Fin (numeral k)"
  using round64_of_nat[of "numeral k"] by simp

lemma round64_one [simp]: "round64 1 = Fin 1"
  using round64_of_nat[of 1] by simp


lemma round64_not_nan [simp]: "\<not> isnan (round64 x)"
  by (simp add: round64_def Let_def)


lemma map_sum_compute:
  "map_sum id f (compute records tax_rate) =
     (if \<not> has_column records ''Qty'' then Inl (KeyError ''Qty'')
      else if \<not> has_column records ''Price_HD'' then Inl (KeyError ''Price_HD'')
      else if \<not> has_column records ''Price_Lowes'' then Inl (KeyError ''Price_Lowes'')
      else Inr (f (pricing (series_sum (map row_total_hd records))
                  (series_sum (map row_total_lowes records)) (tax_decimal_of tax_rate))))"
  by (simp add: compute_closed_form)





lemma series_sum_whole:
  assumes "sum_list ns \<le> 2 ^ 53"
  shows "series_sum (map (\<lambda>n. Fin (of_nat n)) ns) = Fin (of_nat (sum_list ns))"
  using assms
proof (induction ns rule: rev_induct)
  case Nil
  then show ?case by simp
next
  case (snoc n ns)
  then have "sum_list ns \<le> 2 ^ 53" by simp
  then have "series_sum (map (\<lambda>n. Fin (of_nat n)) ns) = Fin (of_nat (sum_list ns))"
    by (rule snoc.IH)
  moreover have "round64 (rat_of_nat (sum_list ns + n)) = Fin (rat_of_nat (sum_list ns + n))"
    using snoc.prems by (intro round64_of_nat) simp
  ultimately show ?case
    using series_sum_snoc[of "map (\<lambda>n. Fin (of_nat n)) ns" "Fin (of_nat n)"]
    by (simp add: skipna_def)
qed

lemma le_sum_list_nat: "(n::nat) \<in> set ns \<Longrightarrow> n \<le> sum_list ns"
  by (induction ns) auto

lemma map_row_total_hd_whole:
  assumes "(\<Sum>(q, a, b)\<leftarrow>items. q * a) \<le> 2 ^ 53"
  shows "map row_total_hd (map whole_item items) = map (\<lambda>n. Fin (of_nat n)) (map (\<lambda>(q, a, b). q * a) items)"
proof -
  have "row_total_hd (whole_item x) = Fin (of_nat ((\<lambda>(q, a, b). q * a) x))" if "x \<in> set items" for x
  proof -
    obtain q a b where x: "x = (q, a, b)" by (cases x) auto
    have "q * a \<in> set (map (\<lambda>(q, a, b). q * a) items)" using that x by force
    then have "q * a \<le> 2 ^ 53" using le_sum_list_nat assms by fastforce
    then have "round64 (rat_of_nat (q * a)) = Fin (rat_of_nat (q * a))" by (rule round64_of_nat)
    then show ?thesis by (simp add: x whole_item_def row_total_hd_def)
  qed
  then show ?thesis by simp
qed

lemma map_row_total_lowes_whole:
  assumes "(\<Sum>(q, a, b)\<leftarrow>items. q * b) \<le> 2 ^ 53"
  shows "map row_total_lowes (map whole_item items) = map (\<lambda>n. Fin (of_nat n)) (map (\<lambda>(q, a, b). q * b) items)"
proof -
  have "row_total_lowes (whole_item x) = Fin (of_nat ((\<lambda>(q, a, b). q * b) x))" if "x \<in> set items" for x
  proof -
    obtain q a b where x: "x = (q, a, b)" by (cases x) auto
    have "q * b \<in> set (map (\<lambda>(q, a, b). q * b) items)" using that x by force
    then have "q * b \<le> 2 ^ 53" using le_sum_list_nat assms by fastforce
    then have "round64 (rat_of_nat (q * b)) = Fin (rat_of_nat (q * b))" by (rule round64_of_nat)
    then show ?thesis by (simp add: x whole_item_def row_total_lowes_def)
  qed
  then show ?thesis by simp
qed

lemma subtotal_hd_whole:
  assumes "(\<Sum>(q, a, b)\<leftarrow>items. q * a) \<le> 2 ^ 53"
  shows "series_sum (map row_total_hd (map whole_item items)) = Fin (of_nat (\<Sum>(q, a, b)\<leftarrow>items. q * a))"
  unfolding map_row_total_hd_whole[OF assms] using assms by (rule series_sum_whole)

lemma subtotal_lowes_whole:
  assumes "(\<Sum>(q, a, b)\<leftarrow>items. q * b) \<le> 2 ^ 53"
  shows "series_sum (map row_total_lowes (map whole_item items)) = Fin (of_nat (\<Sum>(q, a, b)\<leftarrow>items. q * b))"
  unfolding map_row_total_lowes_whole[OF assms] using assms by (rule series_sum_whole)

lemma has_column_whole:
  "items \<noteq> [] \<Longrightarrow> has_column (map whole_item items) ''Qty''"
  "items \<noteq> [] \<Longrightarrow> has_column (map whole_item items) ''Price_HD''"
  "items \<noteq> [] \<Longrightarrow> has_column (map whole_item items) ''Price_Lowes''"
  by (cases items; auto simp: whole_item_def)+

lemma finite_nonneg_iff: "finite_nonneg x \<longleftrightarrow> (\<exists>a. x = Fin a \<and> 0 \<le> a)"
  by (cases x) simp_all

lemma finite_nonneg_is_finite: "finite_nonneg x \<Longrightarrow> is_finite x"
  by (cases x) simp_all

lemma tax_decimal_finite:
  assumes "0 \<le> t" "t \<le> 100"
  shows "\<exists>d. tax_decimal_of (Fin t) = Fin d \<and> 0 \<le> d"
proof -
  have "0 \<le> t / 100" "t / 100 \<le> 1" using assms by simp_all
  then have "nonneg (round64 (t / 100))" "float_le (round64 (t / 100)) (round64 1)"
    by (simp_all add: round64_nonneg round64_mono del: round64_one)
  then show ?thesis by (cases "round64 (t / 100)") (simp_all add: tax_decimal_of_def)
qed

lemma with_tax_mono:
  assumes "0 \<le> a" "a \<le> a'" "0 \<le> d"
  shows "float_le (with_tax (Fin a) (Fin d)) (with_tax (Fin a') (Fin d))"
  unfolding with_tax_def
proof (rule float_add_mono)
  show "nonneg (Fin a)" using assms by simp
  show "nonneg (float_mul (Fin a) (Fin d))" using assms by (intro float_mul_fin_nonneg)
  show "float_le (Fin a) (Fin a')" using assms by simp
  show "float_le (float_mul (Fin a) (Fin d)) (float_mul (Fin a') (Fin d))"
    using assms by (intro float_mul_fin_mono) simp_all
qed

lemma row_total_hd_nonneg: "valid_row row \<Longrightarrow> nonneg (row_total_hd row)"
  by (auto simp: valid_row_def row_total_hd_def finite_nonneg_iff round64_nonneg)

lemma row_total_lowes_nonneg: "valid_row row \<Longrightarrow> nonneg (row_total_lowes row)"
  by (auto simp: valid_row_def row_total_lowes_def finite_nonneg_iff round64_nonneg)





lemma total_mono:
  assumes "nonneg s" "float_le s s'" "s' \<noteq> PInf" "0 \<le> d"
  shows "float_le (with_tax s (Fin d)) (with_tax s' (Fin d))"
proof -
  have "nonneg s'" using assms(1,2) by (rule nonneg_le)
  then obtain a' where s': "s' = Fin a'" using assms(3) by (cases s') simp_all
  then obtain a where s: "s = Fin a" "0 \<le> a" "a \<le> a'" using assms(1,2) by (cases s) simp_all
  show ?thesis unfolding s s' using s(2,3) assms(4) by (rule with_tax_mono)
qed

lemma not_float_lt_PInf [simp]: "\<not> float_lt PInf x"
  by (cases x) simp_all

lemma not_float_lt_NaN [simp]: "\<not> float_lt NaN x"
  by simp

lemma with_tax_PInf: "\<not> float_lt (with_tax PInf (Fin d)) x"
  by (simp add: with_tax_def)

lemma with_tax_zero: "representable s \<Longrightarrow> is_finite s \<Longrightarrow> with_tax s (Fin 0) = s"
  by (cases s) (simp_all add: with_tax_def is_double_def)

lemma tax_decimal_of_zero [simp]: "tax_decimal_of (Fin 0) = Fin 0"
  by (simp add: tax_decimal_of_def)

lemma float_lt_finite_left: "float_lt a b \<Longrightarrow> nonneg a \<Longrightarrow> is_finite a"
  by (cases a; cases b) simp_all

section \<open>The page loop\<close>

lemma render_page_ok:
  assumes "load_page lib doc n = Inr page" "get_pixmap lib page (3, 3) = Inr pix"
    "tobytes lib pix ''png'' = Inr img_bytes"
  shows "render_page lib doc n = Inr (b64encode img_bytes)"
  using assms by (simp add: render_page_def py_bind_def)

lemma render_pages_ok:
  assumes "\<forall>n \<in> set ns. render_page lib doc n = Inr (img n)"
  shows "render_pages lib doc ns image_data = Inr (image_data @ map img ns)"
  using assms by (induction ns arbitrary: image_data) (simp_all add: py_bind_def)


section \<open>The pricing engine: claims\<close>






text \<open>
  Claim C3 says that the engine, run on an empty sequence of line items, succeeds with all six
  amounts zero and retailer B as the cheaper one. On the code, an empty shopping list gives a
  frame without columns, and line 121 raises \<^verbatim>\<open>KeyError: 'Qty'\<close> (lemma
  \<open>calculation_engine_no_rows\<close> above is the sibling path: a frame that keeps its columns
  and has no rows gives the zero result and retailer B).
\<close>

theorem compute_empty_shopping_list: "compute [] tax_rate = Inl (KeyError ''Qty'')"
  by (simp add: compute_closed_form has_column_def column_names_def)




text \<open>
  Claim C6 says that subtotals are additive over concatenation:
  \<open>subtotalA (items1 @ items2) = subtotalA items1 + subtotalA items2\<close>. On the code the sums
  are binary64 sums, which are not associative: with one item of price 0.1 and then two
  items of prices 0.2 and 0.3 (quantity 1 each) the subtotal of the whole list is
  0.6000000000000001, while the two subtotals 0.1 and 0.5 add up to 0.6.
\<close>

theorem subtotal_not_additive_counterexample:
  "map_sum id subtotalA (compute
      ([line_item (Fin 1) (Fin (3602879701896397 / 36028797018963968)) (Fin 1)]
       @ [line_item (Fin 1) (Fin (3602879701896397 / 18014398509481984)) (Fin 1),
          line_item (Fin 1) (Fin (5404319552844595 / 18014398509481984)) (Fin 1)]) (Fin 0))
     = Inr (Fin (1351079888211149 / 2251799813685248))
   \<and> map_sum id subtotalA (compute
      [line_item (Fin 1) (Fin (3602879701896397 / 36028797018963968)) (Fin 1)] (Fin 0))
     = Inr (Fin (3602879701896397 / 36028797018963968))
   \<and> map_sum id subtotalA (compute
      [line_item (Fin 1) (Fin (3602879701896397 / 18014398509481984)) (Fin 1),
       line_item (Fin 1) (Fin (5404319552844595 / 18014398509481984)) (Fin 1)] (Fin 0))
     = Inr (Fin (1 / 2))
   \<and> float_add (Fin (3602879701896397 / 36028797018963968)) (Fin (1 / 2))
     = Fin (5404319552844595 / 9007199254740992)
   \<and> is_double (3602879701896397 / 36028797018963968)
   \<and> is_double (3602879701896397 / 18014398509481984)
   \<and> is_double (5404319552844595 / 18014398509481984)"
proof -
  have d1: "round64 (3602879701896397 / 36028797018963968) = Fin (3602879701896397 / 36028797018963968)"
    by code_simp
  have d2: "round64 (3602879701896397 / 18014398509481984) = Fin (3602879701896397 / 18014398509481984)"
    by code_simp
  have d3: "round64 (5404319552844595 / 18014398509481984) = Fin (5404319552844595 / 18014398509481984)"
    by code_simp
  have a12: "float_add (Fin (3602879701896397 / 36028797018963968)) (Fin (3602879701896397 / 18014398509481984))
      = Fin (1351079888211149 / 4503599627370496)" by code_simp
  have a123: "float_add (Fin (1351079888211149 / 4503599627370496)) (Fin (5404319552844595 / 18014398509481984))
      = Fin (1351079888211149 / 2251799813685248)" by code_simp
  have a23: "float_add (Fin (3602879701896397 / 18014398509481984)) (Fin (5404319552844595 / 18014398509481984))
      = Fin (1 / 2)" by code_simp
  have a1_23: "float_add (Fin (3602879701896397 / 36028797018963968)) (Fin (1 / 2))
      = Fin (5404319552844595 / 9007199254740992)" by code_simp
  have 1: "map_sum id subtotalA (compute
      ([line_item (Fin 1) (Fin (3602879701896397 / 36028797018963968)) (Fin 1)]
       @ [line_item (Fin 1) (Fin (3602879701896397 / 18014398509481984)) (Fin 1),
          line_item (Fin 1) (Fin (5404319552844595 / 18014398509481984)) (Fin 1)]) (Fin 0))
     = Inr (Fin (1351079888211149 / 2251799813685248))"
    using d1 d2 d3 a12 a123
    by (simp add: map_sum_compute pricing_def row_total_hd_def series_sum_def skipna_def)
  have 2: "map_sum id subtotalA (compute
      [line_item (Fin 1) (Fin (3602879701896397 / 36028797018963968)) (Fin 1)] (Fin 0))
     = Inr (Fin (3602879701896397 / 36028797018963968))"
    using d1 by (simp add: map_sum_compute pricing_def row_total_hd_def series_sum_def skipna_def)
  have 3: "map_sum id subtotalA (compute
      [line_item (Fin 1) (Fin (3602879701896397 / 18014398509481984)) (Fin 1),
       line_item (Fin 1) (Fin (5404319552844595 / 18014398509481984)) (Fin 1)] (Fin 0))
     = Inr (Fin (1 / 2))"
    using d2 d3 a23 by (simp add: map_sum_compute pricing_def row_total_hd_def series_sum_def skipna_def)
  show ?thesis using 1 2 3 a1_23 d1 d2 d3 unfolding is_double_def by blast
qed

text \<open>
  Claim C6, amended: additivity holds when no sum is rounded, in particular for two non-empty
  lists whose quantities and prices are whole numbers when, for each retailer, the sum of
  quantity times price over both lists is at most \<open>2 ^ 53\<close>: then the engine returns on
  the concatenation and on both lists, and each subtotal of the concatenation is the
  (binary64) sum of the two lists' subtotals.
\<close>

theorem subtotal_additive_whole_numbers:
  assumes "items1 \<noteq> []" "items2 \<noteq> []"
    and "(\<Sum>(q, a, b)\<leftarrow>items1 @ items2. q * a) \<le> 2 ^ 53"
    and "(\<Sum>(q, a, b)\<leftarrow>items1 @ items2. q * b) \<le> 2 ^ 53"
  shows "\<exists>r r1 r2. compute (map whole_item items1 @ map whole_item items2) tax_rate = Inr r
    \<and> compute (map whole_item items1) tax_rate = Inr r1
    \<and> compute (map whole_item items2) tax_rate = Inr r2
    \<and> subtotalA r = float_add (subtotalA r1) (subtotalA r2)
    \<and> subtotalB r = float_add (subtotalB r1) (subtotalB r2)"
proof -
  let ?A = "\<lambda>items. (\<Sum>(q, a, b)\<leftarrow>items. q * a)"
  let ?B = "\<lambda>items. (\<Sum>(q, a, b)\<leftarrow>items. q * b)"
  let ?td = "tax_decimal_of tax_rate"
  have sumA: "?A (items1 @ items2) = ?A items1 + ?A items2" by simp
  have sumB: "?B (items1 @ items2) = ?B items1 + ?B items2" by simp
  have bA: "?A items1 \<le> 2 ^ 53" "?A items2 \<le> 2 ^ 53" using assms(3) sumA by linarith+
  have bB: "?B items1 \<le> 2 ^ 53" "?B items2 \<le> 2 ^ 53" using assms(4) sumB by linarith+
  have ne: "items1 @ items2 \<noteq> []" using assms(1) by simp
  have r: "compute (map whole_item (items1 @ items2)) tax_rate
      = Inr (pricing (Fin (of_nat (?A (items1 @ items2)))) (Fin (of_nat (?B (items1 @ items2)))) ?td)"
    using has_column_whole[OF ne] subtotal_hd_whole[OF assms(3)] subtotal_lowes_whole[OF assms(4)]
    by (simp only: compute_closed_form if_False not_True_eq_False if_True simp_thms)
  have r1: "compute (map whole_item items1) tax_rate
      = Inr (pricing (Fin (of_nat (?A items1))) (Fin (of_nat (?B items1))) ?td)"
    using has_column_whole[OF assms(1)] subtotal_hd_whole[OF bA(1)] subtotal_lowes_whole[OF bB(1)]
    by (simp only: compute_closed_form if_False not_True_eq_False if_True simp_thms)
  have r2: "compute (map whole_item items2) tax_rate
      = Inr (pricing (Fin (of_nat (?A items2))) (Fin (of_nat (?B items2))) ?td)"
    using has_column_whole[OF assms(2)] subtotal_hd_whole[OF bA(2)] subtotal_lowes_whole[OF bB(2)]
    by (simp only: compute_closed_form if_False not_True_eq_False if_True simp_thms)
  have addA: "float_add (Fin (of_nat (?A items1))) (Fin (of_nat (?A items2)))
      = Fin (of_nat (?A (items1 @ items2)))"
    using round64_of_nat[of "?A items1 + ?A items2"] assms(3) sumA by simp
  have addB: "float_add (Fin (of_nat (?B items1))) (Fin (of_nat (?B items2)))
      = Fin (of_nat (?B (items1 @ items2)))"
    using round64_of_nat[of "?B items1 + ?B items2"] assms(4) sumB by simp
  show ?thesis
    unfolding map_append[symmetric] r r1 r2
    using addA addB by (simp add: pricing_def)
qed

theorem subtotal_additive_whole_numbers_witness:
  "\<exists>r r1 r2. compute (map whole_item [(4, 3, 3)] @ map whole_item [(1, 50, 45)]) (Fin 0) = Inr r
    \<and> compute (map whole_item [(4, 3, 3)]) (Fin 0) = Inr r1
    \<and> compute (map whole_item [(1, 50, 45)]) (Fin 0) = Inr r2
    \<and> subtotalA r = float_add (subtotalA r1) (subtotalA r2)
    \<and> subtotalB r = float_add (subtotalB r1) (subtotalB r2)"
  by (rule subtotal_additive_whole_numbers) simp_all




text \<open>
  Claim C10 says that the tax rate never changes which retailer is reported cheaper
  (\<open>totalA < totalB\<close> exactly when \<open>subtotalA < subtotalB\<close>). On the code, rounding can turn
  two different subtotals into equal totals, and a tie is reported as B: with one item of
  quantity 1 and the prices 15.0 and 15.000000000000002 (the next binary64 value), the
  engine reports B at the rate 7.0 (both totals are 16.05) and A at the rate 0.
\<close>

theorem tax_changes_cheaper_retailer_counterexample:
  "map_sum id cheaperRetailer (compute
      [line_item (Fin 1) (Fin 15) (Fin (8444249301319681 / 562949953421312))] (Fin 7))
     = Inr RetailerB
   \<and> map_sum id cheaperRetailer (compute
      [line_item (Fin 1) (Fin 15) (Fin (8444249301319681 / 562949953421312))] (Fin 0))
     = Inr RetailerA
   \<and> is_double (8444249301319681 / 562949953421312)"
proof -
  have td: "tax_decimal_of (Fin 7) = Fin (1261007895663739 / 18014398509481984)"
    by code_simp
  have d: "is_double (8444249301319681 / 562949953421312)" by code_simp
  then have d': "round64 (8444249301319681 / 562949953421312) = Fin (8444249301319681 / 562949953421312)"
    by (simp add: is_double_def)
  have ta: "float_mul (Fin 15) (Fin (1261007895663739 / 18014398509481984))
      = Fin (4728779608739021 / 4503599627370496)" by code_simp
  have fa: "float_add (Fin 15) (Fin (4728779608739021 / 4503599627370496))
      = Fin (4517673376206029 / 281474976710656)" by code_simp
  have tb: "float_mul (Fin (8444249301319681 / 562949953421312)) (Fin (1261007895663739 / 18014398509481984))
      = Fin (2364389804369511 / 2251799813685248)" by code_simp
  have fb: "float_add (Fin (8444249301319681 / 562949953421312)) (Fin (2364389804369511 / 2251799813685248))
      = Fin (4517673376206029 / 281474976710656)" by code_simp
  have 1: "map_sum id cheaperRetailer (compute
      [line_item (Fin 1) (Fin 15) (Fin (8444249301319681 / 562949953421312))] (Fin 7))
     = Inr RetailerB"
    using td d' ta fa tb fb
    by (simp add: map_sum_compute pricing_def with_tax_def row_total_hd_def row_total_lowes_def
        series_sum_def skipna_def)
  have 2: "map_sum id cheaperRetailer (compute
      [line_item (Fin 1) (Fin 15) (Fin (8444249301319681 / 562949953421312))] (Fin 0))
     = Inr RetailerA"
    using d'
    by (simp add: map_sum_compute pricing_def with_tax_def row_total_hd_def row_total_lowes_def
        series_sum_def skipna_def)
  show ?thesis using 1 2 d by simp
qed

text \<open>
  Claim C10, amended: the tax rate can change the reported retailer only from A to B, never
  from B to A. For line items with finite non-negative quantities and prices and a finite
  tax rate in \<open>[0, 100]\<close>: if the engine reports A (\<open>totalA < totalB\<close>) and the subtotal of B
  is finite, then \<open>subtotalA < subtotalB\<close>, and the engine reports A at the rate 0 as well.
\<close>

theorem tax_never_turns_B_into_A:
  assumes "\<forall>row \<in> set records. valid_row row" "0 \<le> t" "t \<le> 100"
    and "compute records (Fin t) = Inr r" "cheaperRetailer r = RetailerA"
    and "subtotalB r \<noteq> PInf"
  shows "float_lt (subtotalA r) (subtotalB r)
    \<and> (\<exists>r0. compute records (Fin 0) = Inr r0 \<and> cheaperRetailer r0 = RetailerA)"
proof -
  let ?sa = "series_sum (map row_total_hd records)"
  let ?sb = "series_sum (map row_total_lowes records)"
  obtain d where d: "tax_decimal_of (Fin t) = Fin d" "0 \<le> d"
    using tax_decimal_finite[OF assms(2,3)] by blast
  note r = compute_Inr(1)[OF assms(4)] and cols = compute_Inr(2,3,4)[OF assms(4)]
  have sub: "subtotalA r = ?sa" "subtotalB r = ?sb" by (simp_all add: r pricing_def)
  have lt: "float_lt (with_tax ?sa (Fin d)) (with_tax ?sb (Fin d))"
    using assms(5) by (simp add: r pricing_def d split: if_splits)
  have "\<forall>x \<in> set (map row_total_hd records). nonneg x"
    using assms(1) by (auto intro: row_total_hd_nonneg)
  then have nA: "nonneg ?sa" by (rule series_sum_nonneg)
  have "\<forall>x \<in> set (map row_total_lowes records). nonneg x"
    using assms(1) by (auto intro: row_total_lowes_nonneg)
  then have nB: "nonneg ?sb" by (rule series_sum_nonneg)
  have s: "float_lt ?sa ?sb"
  proof (rule ccontr)
    assume "\<not> float_lt ?sa ?sb"
    then have le: "float_le ?sb ?sa" using nonneg_total[OF nA nB] by blast
    show False
    proof (cases "?sa = PInf")
      case True
      then show ?thesis using lt with_tax_PInf by simp
    next
      case False
      from total_mono[OF nB le False d(2)] lt show ?thesis by (simp add: float_le_not_lt)
    qed
  qed
  have fa: "is_finite ?sa" using s nA by (rule float_lt_finite_left)
  have fb: "is_finite ?sb" using nB assms(6) by (cases ?sb) (simp_all add: sub)
  have "with_tax ?sa (Fin 0) = ?sa" "with_tax ?sb (Fin 0) = ?sb"
    using fa fb by (simp_all add: with_tax_zero series_sum_representable)
  then have "cheaperRetailer (pricing ?sa ?sb (Fin 0)) = RetailerA"
    using s by (simp add: pricing_def)
  moreover have "compute records (Fin 0) = Inr (pricing ?sa ?sb (Fin 0))"
    using cols by (simp add: compute_closed_form)
  ultimately show ?thesis using s sub by simp
qed

theorem tax_never_turns_B_into_A_witness:
  "\<exists>r r0. compute [line_item (Fin 10) (Fin (5 / 2)) (Fin (11 / 4))] (Fin 7) = Inr r
     \<and> cheaperRetailer r = RetailerA \<and> float_lt (subtotalA r) (subtotalB r)
     \<and> compute [line_item (Fin 10) (Fin (5 / 2)) (Fin (11 / 4))] (Fin 0) = Inr r0
     \<and> cheaperRetailer r0 = RetailerA"
proof -
  let ?row = "line_item (Fin 10) (Fin (5 / 2)) (Fin (11 / 4))"
  have td: "tax_decimal_of (Fin 7) = Fin (1261007895663739 / 18014398509481984)"
    by code_simp
  have pa: "float_mul (Fin 10) (Fin (5 / 2)) = Fin 25" by code_simp
  have pb: "float_mul (Fin 10) (Fin (11 / 4)) = Fin (55 / 2)" by code_simp
  have sb: "float_add (Fin 0) (Fin (55 / 2)) = Fin (55 / 2)" by code_simp
  have ta: "float_mul (Fin 25) (Fin (1261007895663739 / 18014398509481984))
      = Fin (7881299347898369 / 4503599627370496)" by code_simp
  have tb: "float_mul (Fin (55 / 2)) (Fin (1261007895663739 / 18014398509481984))
      = Fin (4334714641344103 / 2251799813685248)" by code_simp
  have fa: "float_add (Fin 25) (Fin (7881299347898369 / 4503599627370496)) = Fin (107 / 4)"
    by code_simp
  have fb: "float_add (Fin (55 / 2)) (Fin (4334714641344103 / 2251799813685248))
      = Fin (8282401189711053 / 281474976710656)" by code_simp
  obtain r where r: "compute [?row] (Fin 7) = Inr r" by (simp add: compute_closed_form)
  have c: "cheaperRetailer r = RetailerA" "subtotalB r \<noteq> PInf"
    using compute_Inr(1)[OF r] td pa pb sb ta tb fa fb
    by (simp_all add: pricing_def with_tax_def row_total_hd_def row_total_lowes_def
        series_sum_def skipna_def)
  have "float_lt (subtotalA r) (subtotalB r)
    \<and> (\<exists>r0. compute [?row] (Fin 0) = Inr r0 \<and> cheaperRetailer r0 = RetailerA)"
    by (rule tax_never_turns_B_into_A[OF _ _ _ r c]) (simp_all add: valid_row_def)
  then show ?thesis using r c(1) by blast
qed

section \<open>The ingestion adapter: claims\<close>

text \<open>
  Claim C8: for an upload whose declared media type is not \<^verbatim>\<open>application/pdf\<close>, the adapter
  returns exactly one element, the base64 encoding of the upload's raw bytes; no PDF library
  call is made and nothing is re-encoded.
\<close>

theorem process_file_raster_image:
  assumes "media_type uploaded_file \<noteq> ''application/pdf''"
  shows "process_file lib uploaded_file = Inr [b64encode (getvalue uploaded_file)]"
  using assms by (simp add: process_file_def)

theorem process_file_raster_image_witness:
  "process_file sample_fitz \<lparr>media_type = ''image/png'', getvalue = [77, 97, 110]\<rparr> = Inr [''TWFu'']"
  using process_file_raster_image[of "\<lparr>media_type = ''image/png'', getvalue = [77, 97, 110]\<rparr>" sample_fitz]
  by (simp add: b64_digit_def b64_alphabet_def)

text \<open>
  Claim C5: for a PDF upload that PyMuPDF opens as a document of \<open>n\<close> pages, the first
  \<open>min n 5\<close> of which load and render, the adapter returns exactly \<open>min n 5\<close> images.
  Image \<open>k\<close> is the base64 encoding of the PNG bytes of page \<open>k\<close> (pages are numbered
  from 0, so the first page comes first) rendered through \<^verbatim>\<open>fitz.Matrix(3, 3)\<close>, the 3x zoom;
  the pages from the sixth on are never loaded. In the witness a document of 7 pages yields
  5 images.
\<close>

theorem process_file_pdf_page_cap:
  assumes "media_type uploaded_file = ''application/pdf''"
    and "fitz_open lib (getvalue uploaded_file) = Inr doc"
    and "\<forall>n < min (page_count lib doc) 5.
           load_page lib doc n = Inr (page n) \<and> get_pixmap lib (page n) (3, 3) = Inr (pix n)
           \<and> tobytes lib (pix n) ''png'' = Inr (png n)"
  shows "\<exists>images. process_file lib uploaded_file = Inr images
           \<and> length images = min (page_count lib doc) 5
           \<and> images = map (\<lambda>n. b64encode (png n)) [0..<min (page_count lib doc) 5]"
proof -
  have "\<forall>n \<in> set [0..<min (page_count lib doc) 5]. render_page lib doc n = Inr (b64encode (png n))"
    using assms(3) by (auto intro: render_page_ok)
  then have "render_pages lib doc [0..<min (page_count lib doc) 5] [] =
      Inr ([] @ map (\<lambda>n. b64encode (png n)) [0..<min (page_count lib doc) 5])"
    by (rule render_pages_ok)
  then show ?thesis using assms(1,2) by (simp add: process_file_def py_bind_def)
qed

theorem process_file_pdf_page_cap_witness:
  "process_file sample_fitz \<lparr>media_type = ''application/pdf'', getvalue = [37, 1, 2, 3, 4, 5, 6, 7]\<rparr>
     = Inr [''AQMD'', ''AgMD'', ''AwMD'', ''BAMD'', ''BQMD'']"
proof -
  let ?f = "\<lparr>media_type = ''application/pdf'', getvalue = [37, 1, 2, 3, 4, 5, 6, 7 :: byte]\<rparr>"
  let ?doc = "[1, 2, 3, 4, 5, 6, 7 :: byte]"
  have m: "min (page_count sample_fitz ?doc) 5 = 5" by (simp add: sample_fitz_def)
  have u: "[0..<5] = [0, 1, 2, 3, 4 :: nat]" by (simp add: upt_rec)
  have "\<exists>images. process_file sample_fitz ?f = Inr images
           \<and> length images = min (page_count sample_fitz ?doc) 5
           \<and> images = map (\<lambda>n. b64encode [?doc ! n, 3, 3]) [0..<min (page_count sample_fitz ?doc) 5]"
  proof (rule process_file_pdf_page_cap[where page = "\<lambda>n. ?doc ! n" and pix = "\<lambda>n. (?doc ! n, 3, 3)"])
    show "media_type ?f = ''application/pdf''" by simp
    show "fitz_open sample_fitz (getvalue ?f) = Inr ?doc" by (simp add: sample_fitz_def)
    show "\<forall>n<min (page_count sample_fitz ?doc) 5.
       load_page sample_fitz ?doc n = Inr (?doc ! n) \<and>
       get_pixmap sample_fitz (?doc ! n) (3, 3) = Inr (?doc ! n, 3, 3) \<and>
       tobytes sample_fitz (?doc ! n, 3, 3) ''png'' = Inr [?doc ! n, 3, 3]"
      unfolding m
    proof (intro allI impI)
      fix n :: nat
      assume "n < 5"
      then consider "n = 0" | "n = 1" | "n = 2" | "n = 3" | "n = 4" by linarith
      then show "load_page sample_fitz ?doc n = Inr (?doc ! n) \<and>
         get_pixmap sample_fitz (?doc ! n) (3, 3) = Inr (?doc ! n, 3, 3) \<and>
         tobytes sample_fitz (?doc ! n, 3, 3) ''png'' = Inr [?doc ! n, 3, 3]"
        by cases (simp_all add: sample_fitz_def)
    qed
  qed
  then show ?thesis unfolding m u by (simp add: b64_digit_def b64_alphabet_def)
qed



end
